theory Spec2Isabelle
  imports Main "HOL-Library.Word"
begin

section \<open>The C++ fragment the ring buffer is written in\<close>

text \<open>
  \<^verbatim>\<open>size_t\<close> is an unsigned 64-bit integer (a 64-bit platform is assumed): \<open>+\<close>
  and \<open>-\<close> wrap around, \<open><\<close> and \<open>\<ge>\<close> compare unsigned values.

  Two operations of the code have undefined behaviour on some operands: \<^verbatim>\<open>a % b\<close>
  with \<open>b = 0\<close>, and \<^verbatim>\<open>v[i]\<close> on a \<^verbatim>\<open>std::vector\<close> (or through a pointer into its
  storage) with \<open>i\<close> not below the vector's length. Both are written out: they
  return \<open>None\<close> there, and every function that uses them hands \<open>None\<close> on. A result
  \<open>Some r\<close> therefore says that no division by zero and no out-of-range access took
  place while \<open>r\<close> was computed.

  Exceptions are values of the type \<open>exn\<close>, one constructor per exception class
  that can arise: those of \<^verbatim>\<open><stdexcept>\<close> that the code throws, with the message the
  code gives them, and the two that \<^verbatim>\<open>std::vector\<close> throws when it cannot be built. A
  function that can throw returns \<open>Inl e\<close> when it throws \<open>e\<close>, together with the
  object's state at that moment.
\<close>

type_synonym size_t = "64 word"

datatype exn = invalid_argument string | out_of_range string | length_error | bad_alloc

definition rem_op :: "size_t \<Rightarrow> size_t \<Rightarrow> size_t option" where
  "rem_op a b = (if b = 0 then None else Some (a mod b))"

definition subscript :: "'a list \<Rightarrow> size_t \<Rightarrow> 'a option" where
  "subscript v i = (if unat i < length v then Some (v ! unat i) else None)"

definition assign :: "'a list \<Rightarrow> size_t \<Rightarrow> 'a \<Rightarrow> 'a list option" where
  "assign v i x = (if unat i < length v then Some (v[unat i := x]) else None)"

text \<open>
  No \<^verbatim>\<open>std::vector\<close> has more than \<^verbatim>\<open>PTRDIFF_MAX\<close> elements, whatever its element type
  and whatever the implementation of the library.
\<close>

definition vector_max_size :: nat where
  "vector_max_size = 2 ^ 63 - 1"

text \<open>
  \<^verbatim>\<open>std::vector<T>(n)\<close> holds \<open>n\<close> value-initialised elements (\<open>dflt\<close> stands for
  \<^verbatim>\<open>T()\<close>). Whether it can be built depends on two things outside the code, which are
  parameters here:
  \<^item> \<open>max_size\<close>, the value of \<^verbatim>\<open>max_size()\<close> for the element type: it depends on the
    size of \<open>T\<close> and on the library (at most \<open>vector_max_size\<close>); the constructor throws
    \<^verbatim>\<open>std::length_error\<close> when \<open>n\<close> exceeds it;
  \<^item> \<open>can_allocate\<close>, which says for a number of elements whether the allocator can
    supply the storage at the moment of the call; when it cannot, the constructor
    throws \<^verbatim>\<open>std::bad_alloc\<close>. A vector of no elements allocates nothing.
\<close>

definition vector_n :: "nat \<Rightarrow> (nat \<Rightarrow> bool) \<Rightarrow> 'a \<Rightarrow> size_t \<Rightarrow> exn + 'a list" where
  "vector_n max_size can_allocate dflt n =
     (if max_size < unat n then Inl length_error
      else if n \<noteq> 0 \<and> \<not> can_allocate (unat n) then Inl bad_alloc
      else Inr (replicate (unat n) dflt))"


section \<open>RingBuffer\<close>

text \<open>
  The members \<^verbatim>\<open>buffer_\<close>, \<^verbatim>\<open>capacity_\<close>, \<^verbatim>\<open>head_\<close>, \<^verbatim>\<open>tail_\<close> and \<^verbatim>\<open>size_\<close> of the class;
  a name cannot end in an underscore here, so each carries the suffix \<open>m\<close>.
\<close>

record 'a RingBuffer =
  buffer_m :: "'a list"
  capacity_m :: size_t
  head_m :: size_t
  tail_m :: size_t
  size_m :: size_t

text \<open>
  The constructor. The member initialisers run first, in the order of declaration, so
  the vector is built (and may throw) before the body tests the capacity.
\<close>

definition new :: "nat \<Rightarrow> (nat \<Rightarrow> bool) \<Rightarrow> 'a \<Rightarrow> size_t \<Rightarrow> exn + 'a RingBuffer" where
  "new max_size can_allocate dflt cap =
     (case vector_n max_size can_allocate dflt cap of
        Inl e \<Rightarrow> Inl e
      | Inr b \<Rightarrow>
          if cap = 0
          then Inl (invalid_argument ''RingBuffer capacity must be greater than 0.'')
          else Inr \<lparr>buffer_m = b, capacity_m = cap, head_m = 0, tail_m = 0, size_m = 0\<rparr>)"

definition empty_rb :: "'a RingBuffer \<Rightarrow> bool" where
  "empty_rb s = (size_m s = 0)"

definition full :: "'a RingBuffer \<Rightarrow> bool" where
  "full s = (size_m s = capacity_m s)"

definition size_rb :: "'a RingBuffer \<Rightarrow> size_t" where
  "size_rb s = size_m s"

definition capacity :: "'a RingBuffer \<Rightarrow> size_t" where
  "capacity s = capacity_m s"

text \<open>
  \<^verbatim>\<open>push(const T&)\<close> and \<^verbatim>\<open>push(T&&)\<close> have the same body up to the copy or move of
  the argument into the slot; on the buffer they act alike.
\<close>

definition push :: "'a \<Rightarrow> 'a RingBuffer \<Rightarrow> 'a RingBuffer option" where
  "push item s =
     (case assign (buffer_m s) (tail_m s) item of
        None \<Rightarrow> None
      | Some b \<Rightarrow>
          (case rem_op (tail_m s + 1) (capacity_m s) of
             None \<Rightarrow> None
           | Some t \<Rightarrow>
               if size_m s < capacity_m s
               then Some (s\<lparr>buffer_m := b, tail_m := t, size_m := size_m s + 1\<rparr>)
               else (case rem_op (head_m s + 1) (capacity_m s) of
                       None \<Rightarrow> None
                     | Some h \<Rightarrow> Some (s\<lparr>buffer_m := b, tail_m := t, head_m := h\<rparr>))))"

text \<open>\<^verbatim>\<open>emplace(args...)\<close> stores \<^verbatim>\<open>T(args...)\<close>; \<open>ctor\<close> is that constructor of \<open>T\<close>.\<close>

definition emplace :: "('b \<Rightarrow> 'a) \<Rightarrow> 'b \<Rightarrow> 'a RingBuffer \<Rightarrow> 'a RingBuffer option" where
  "emplace ctor args s =
     (case assign (buffer_m s) (tail_m s) (ctor args) of
        None \<Rightarrow> None
      | Some b \<Rightarrow>
          (case rem_op (tail_m s + 1) (capacity_m s) of
             None \<Rightarrow> None
           | Some t \<Rightarrow>
               if size_m s < capacity_m s
               then Some (s\<lparr>buffer_m := b, tail_m := t, size_m := size_m s + 1\<rparr>)
               else (case rem_op (head_m s + 1) (capacity_m s) of
                       None \<Rightarrow> None
                     | Some h \<Rightarrow> Some (s\<lparr>buffer_m := b, tail_m := t, head_m := h\<rparr>))))"

definition try_push :: "'a \<Rightarrow> 'a RingBuffer \<Rightarrow> (bool \<times> 'a RingBuffer) option" where
  "try_push item s =
     (if full s then Some (False, s)
      else (case push item s of None \<Rightarrow> None | Some s' \<Rightarrow> Some (True, s')))"

text \<open>
  \<^verbatim>\<open>pop\<close> and \<^verbatim>\<open>try_pop\<close> move the element out of its slot. What a moved-from \<open>T\<close>
  holds depends on \<open>T\<close>: \<open>mv x\<close> is what is left of \<open>x\<close>. The output parameter of
  \<^verbatim>\<open>try_pop\<close> is a variable of the caller's; the function returns its new value.
\<close>

definition pop :: "('a \<Rightarrow> 'a) \<Rightarrow> 'a RingBuffer \<Rightarrow> ((exn + 'a) \<times> 'a RingBuffer) option" where
  "pop mv s =
     (if empty_rb s
      then Some (Inl (out_of_range ''Cannot pop from an empty RingBuffer.''), s)
      else (case subscript (buffer_m s) (head_m s) of
              None \<Rightarrow> None
            | Some item \<Rightarrow>
                (case rem_op (head_m s + 1) (capacity_m s) of
                   None \<Rightarrow> None
                 | Some h \<Rightarrow>
                     Some (Inr item,
                           s\<lparr>buffer_m := (buffer_m s)[unat (head_m s) := mv item],
                             head_m := h, size_m := size_m s - 1\<rparr>))))"

definition try_pop ::
    "('a \<Rightarrow> 'a) \<Rightarrow> 'a RingBuffer \<Rightarrow> 'a \<Rightarrow> (bool \<times> 'a RingBuffer \<times> 'a) option" where
  "try_pop mv s out_item =
     (if empty_rb s then Some (False, s, out_item)
      else (case subscript (buffer_m s) (head_m s) of
              None \<Rightarrow> None
            | Some item \<Rightarrow>
                (case rem_op (head_m s + 1) (capacity_m s) of
                   None \<Rightarrow> None
                 | Some h \<Rightarrow>
                     Some (True,
                           s\<lparr>buffer_m := (buffer_m s)[unat (head_m s) := mv item],
                             head_m := h, size_m := size_m s - 1\<rparr>,
                           item))))"

definition front :: "'a RingBuffer \<Rightarrow> ((exn + 'a) \<times> 'a RingBuffer) option" where
  "front s =
     (if empty_rb s
      then Some (Inl (out_of_range ''Cannot get front from an empty RingBuffer.''), s)
      else (case subscript (buffer_m s) (head_m s) of
              None \<Rightarrow> None
            | Some x \<Rightarrow> Some (Inr x, s)))"

definition at :: "'a RingBuffer \<Rightarrow> size_t \<Rightarrow> ((exn + 'a) \<times> 'a RingBuffer) option" where
  "at s index =
     (if index \<ge> size_m s
      then Some (Inl (out_of_range ''Index out of bounds for RingBuffer::at()''), s)
      else (case rem_op (head_m s + index) (capacity_m s) of
              None \<Rightarrow> None
            | Some i \<Rightarrow>
                (case subscript (buffer_m s) i of
                   None \<Rightarrow> None
                 | Some x \<Rightarrow> Some (Inr x, s))))"

text \<open>The \<^verbatim>\<open>const\<close> overload of \<^verbatim>\<open>at\<close>: the same body with its own message.\<close>

definition at_const :: "'a RingBuffer \<Rightarrow> size_t \<Rightarrow> ((exn + 'a) \<times> 'a RingBuffer) option" where
  "at_const s index =
     (if index \<ge> size_m s
      then Some (Inl (out_of_range ''Index out of bounds for RingBuffer::at() const''), s)
      else (case rem_op (head_m s + index) (capacity_m s) of
              None \<Rightarrow> None
            | Some i \<Rightarrow>
                (case subscript (buffer_m s) i of
                   None \<Rightarrow> None
                 | Some x \<Rightarrow> Some (Inr x, s))))"

definition clear :: "'a RingBuffer \<Rightarrow> 'a RingBuffer" where
  "clear s = s\<lparr>head_m := 0, tail_m := 0, size_m := 0\<rparr>"


section \<open>RingBufferIterator\<close>

text \<open>
  \<^verbatim>\<open>data_ptr_\<close> points at the vector's storage; the record holds the storage it
  designates, which is the buffer's as long as the buffer is not modified while the
  iterator is in use.
\<close>

record 'a RingBufferIterator =
  data_ptr_m :: "'a list"
  current_logical_index_m :: size_t
  buffer_head_m :: size_t
  buffer_capacity_m :: size_t

definition deref :: "'a RingBufferIterator \<Rightarrow> 'a option" where
  "deref it =
     (case rem_op (buffer_head_m it + current_logical_index_m it) (buffer_capacity_m it) of
        None \<Rightarrow> None
      | Some i \<Rightarrow> subscript (data_ptr_m it) i)"

definition incr :: "'a RingBufferIterator \<Rightarrow> 'a RingBufferIterator" where
  "incr it = it\<lparr>current_logical_index_m := current_logical_index_m it + 1\<rparr>"

definition iter_eq :: "'a RingBufferIterator \<Rightarrow> 'a RingBufferIterator \<Rightarrow> bool" where
  "iter_eq a b = (current_logical_index_m a = current_logical_index_m b)"

definition iter_neq :: "'a RingBufferIterator \<Rightarrow> 'a RingBufferIterator \<Rightarrow> bool" where
  "iter_neq a b = (\<not> iter_eq a b)"

definition begin_rb :: "'a RingBuffer \<Rightarrow> 'a RingBufferIterator" where
  "begin_rb s =
     \<lparr>data_ptr_m = buffer_m s, current_logical_index_m = 0,
      buffer_head_m = head_m s, buffer_capacity_m = capacity_m s\<rparr>"

definition end_rb :: "'a RingBuffer \<Rightarrow> 'a RingBufferIterator" where
  "end_rb s =
     \<lparr>data_ptr_m = buffer_m s, current_logical_index_m = size_m s,
      buffer_head_m = head_m s, buffer_capacity_m = capacity_m s\<rparr>"

section \<open>Client code: sequences of calls and loops\<close>

text \<open>
  A caller's straight-line sequence of mutating calls. A call that throws leaves the
  caller with the object as it was when the exception was raised; a call whose
  behaviour is undefined ends the run with \<open>None\<close>.
\<close>

datatype ('a, 'b) op = Push 'a | Emplace 'b | TryPush 'a | Pop | TryPop 'a | Clear

fun step :: "('a \<Rightarrow> 'a) \<Rightarrow> ('b \<Rightarrow> 'a) \<Rightarrow> ('a, 'b) op \<Rightarrow> 'a RingBuffer \<Rightarrow> 'a RingBuffer option" where
  "step mv ctor (Push x) s = push x s"
| "step mv ctor (Emplace a) s = emplace ctor a s"
| "step mv ctor (TryPush x) s = map_option snd (try_push x s)"
| "step mv ctor Pop s = map_option snd (pop mv s)"
| "step mv ctor (TryPop out_item) s = map_option (\<lambda>r. fst (snd r)) (try_pop mv s out_item)"
| "step mv ctor Clear s = Some (clear s)"

fun run :: "('a \<Rightarrow> 'a) \<Rightarrow> ('b \<Rightarrow> 'a) \<Rightarrow> ('a, 'b) op list \<Rightarrow> 'a RingBuffer \<Rightarrow> 'a RingBuffer option" where
  "run mv ctor [] s = Some s"
| "run mv ctor (x # xs) s =
     (case step mv ctor x s of None \<Rightarrow> None | Some s' \<Rightarrow> run mv ctor xs s')"

text \<open>\<^verbatim>\<open>for (const T& v : vs) rb.push(v);\<close>\<close>

fun push_all :: "'a list \<Rightarrow> 'a RingBuffer \<Rightarrow> 'a RingBuffer option" where
  "push_all [] s = Some s"
| "push_all (v # vs) s =
     (case push v s of None \<Rightarrow> None | Some s' \<Rightarrow> push_all vs s')"

text \<open>
  \<open>n\<close> calls of \<^verbatim>\<open>pop\<close> in a row, collecting what they return; the first exception
  ends the sequence.
\<close>

fun pops :: "('a \<Rightarrow> 'a) \<Rightarrow> nat \<Rightarrow> 'a RingBuffer \<Rightarrow> ((exn + 'a list) \<times> 'a RingBuffer) option" where
  "pops mv 0 s = Some (Inr [], s)"
| "pops mv (Suc n) s =
     (case pop mv s of
        None \<Rightarrow> None
      | Some (Inl e, s') \<Rightarrow> Some (Inl e, s')
      | Some (Inr v, s') \<Rightarrow>
          (case pops mv n s' of
             None \<Rightarrow> None
           | Some (Inl e, s'') \<Rightarrow> Some (Inl e, s'')
           | Some (Inr vs, s'') \<Rightarrow> Some (Inr (v # vs), s'')))"

text \<open>\<^verbatim>\<open>while (!rb.empty()) out.push_back(rb.pop());\<close>\<close>

function drain :: "('a \<Rightarrow> 'a) \<Rightarrow> 'a RingBuffer \<Rightarrow> ((exn + 'a list) \<times> 'a RingBuffer) option" where
  "drain mv s =
     (if empty_rb s then Some (Inr [], s)
      else (case pop mv s of
              None \<Rightarrow> None
            | Some (Inl e, s') \<Rightarrow> Some (Inl e, s')
            | Some (Inr v, s') \<Rightarrow>
                (case drain mv s' of
                   None \<Rightarrow> None
                 | Some (Inl e, s'') \<Rightarrow> Some (Inl e, s'')
                 | Some (Inr vs, s'') \<Rightarrow> Some (Inr (v # vs), s''))))"
  by pat_completeness auto
termination
proof (relation "measure (\<lambda>(mv, s). unat (size_m s))")
  show "wf (measure (\<lambda>(mv, s). unat (size_m s)))"
    by simp
next
  fix mv :: "'a \<Rightarrow> 'a" and s :: "'a RingBuffer" and x2 x y s'
  assume ne: "\<not> empty_rb s" and p: "pop mv s = Some x2" and x: "(x, s') = x2" and "x = Inr y"
  from ne have "size_m s \<noteq> 0"
    by (simp add: empty_rb_def)
  then have "unat (size_m s - 1) < unat (size_m s)"
    by (rule measure_unat)
  moreover from ne p x have "size_m s' = size_m s - 1"
    by (auto simp: pop_def split: option.splits)
  ultimately show "((mv, s'), (mv, s)) \<in> measure (\<lambda>(mv, s). unat (size_m s))"
    by simp
qed

text \<open>\<^verbatim>\<open>for (auto it = start; it != fin; ++it) out.push_back(*it);\<close>\<close>

function traverse :: "'a RingBufferIterator \<Rightarrow> 'a RingBufferIterator \<Rightarrow> 'a list option" where
  "traverse it fin =
     (if iter_neq it fin
      then (case deref it of
              None \<Rightarrow> None
            | Some x \<Rightarrow>
                (case traverse (incr it) fin of
                   None \<Rightarrow> None
                 | Some xs \<Rightarrow> Some (x # xs)))
      else Some [])"
  by pat_completeness auto
termination
proof (relation "measure (\<lambda>(it, fin). unat (current_logical_index_m fin - current_logical_index_m it))")
  show "wf (measure (\<lambda>(it, fin). unat (current_logical_index_m fin - current_logical_index_m it)))"
    by simp
next
  fix it fin :: "'a RingBufferIterator" and x
  assume "iter_neq it fin"
  then have "current_logical_index_m fin - current_logical_index_m it \<noteq> 0"
    by (auto simp: iter_neq_def iter_eq_def)
  then have "unat (current_logical_index_m fin - current_logical_index_m it - 1)
      < unat (current_logical_index_m fin - current_logical_index_m it)"
    by (rule measure_unat)
  then show "((incr it, fin), (it, fin))
      \<in> measure (\<lambda>(it, fin). unat (current_logical_index_m fin - current_logical_index_m it))"
    by (simp add: incr_def diff_diff_eq)
qed


section \<open>Invariant and logical contents\<close>

text \<open>
  The structural invariant of the class, on the unsigned values of the members. The
  sum \<open>head + size\<close> is the mathematical one.
\<close>

definition invariant :: "'a RingBuffer \<Rightarrow> bool" where
  "invariant s =
     (1 \<le> unat (capacity_m s) \<and>
      length (buffer_m s) = unat (capacity_m s) \<and>
      unat (head_m s) < unat (capacity_m s) \<and>
      unat (tail_m s) < unat (capacity_m s) \<and>
      unat (size_m s) \<le> unat (capacity_m s) \<and>
      unat (tail_m s) = (unat (head_m s) + unat (size_m s)) mod unat (capacity_m s))"

text \<open>
  The elements the buffer holds, oldest first: logical position \<open>j\<close> is the slot
  \<open>(head + j) mod capacity\<close>.
\<close>

definition slot :: "'a RingBuffer \<Rightarrow> nat \<Rightarrow> nat" where
  "slot s j = (unat (head_m s) + j) mod unat (capacity_m s)"

definition contents :: "'a RingBuffer \<Rightarrow> 'a list" where
  "contents s = map (\<lambda>j. buffer_m s ! slot s j) [0..<unat (size_m s)]"


section \<open>Unsigned arithmetic of the indices\<close>

lemma unat_incr_mod:
  fixes a c :: size_t
  assumes "unat a < unat c"
  shows "unat ((a + 1) mod c) = Suc (unat a) mod unat c"
proof -
  have "unat c < 2 ^ LENGTH(64)"
    by (rule unsigned_less)
  then have "unat a + unat (1::size_t) < 2 ^ LENGTH(64)"
    using assms by simp
  then have "unat (a + 1) = unat a + unat (1::size_t)"
    by (simp only: unat_add_lem)
  then show ?thesis
    by (simp add: unat_mod)
qed

lemma unat_incr:
  fixes a c :: size_t
  assumes "unat a < unat c"
  shows "unat (a + 1) = Suc (unat a)"
proof -
  have "unat c < 2 ^ LENGTH(64)"
    by (rule unsigned_less)
  then have "unat a + unat (1::size_t) < 2 ^ LENGTH(64)"
    using assms by simp
  then have "unat (a + 1) = unat a + unat (1::size_t)"
    by (simp only: unat_add_lem)
  then show ?thesis
    by simp
qed

lemma unat_add_mod:
  fixes a i c :: size_t
  assumes "unat a + unat i < 2 ^ 64"
  shows "unat ((a + i) mod c) = (unat a + unat i) mod unat c"
proof -
  have "unat (a + i) = unat a + unat i"
    using assms by (simp add: unat_add_lem [symmetric])
  then show ?thesis
    by (simp add: unat_mod)
qed

lemma slot_neq:
  fixes h c j :: nat
  assumes "h < c" "0 < j" "j < c"
  shows "(h + j) mod c \<noteq> h"
proof (cases "h + j < c")
  case True
  then show ?thesis using assms by simp
next
  case False
  then have "(h + j) mod c = h + j - c"
    using assms by (simp add: mod_if)
  then show ?thesis using assms False by simp
qed

lemma slot_shift:
  fixes h c j :: nat
  shows "(Suc h mod c + j) mod c = (h + Suc j) mod c"
  by (simp add: mod_add_left_eq)

lemma contents_push_nonfull:
  fixes h c n :: nat
  assumes "n < c" "h < c" "length b = c"
  shows "map (\<lambda>j. b[(h + n) mod c := x] ! ((h + j) mod c)) [0..<Suc n]
    = map (\<lambda>j. b ! ((h + j) mod c)) [0..<n] @ [x]"
proof -
  have neq: "(h + n) mod c \<noteq> (h + j) mod c" if "j < n" for j
  proof
    assume e: "(h + n) mod c = (h + j) mod c"
    have "h + n = (h + j) + (n - j)"
      using that by simp
    then have "(h + n) mod c = ((h + j) mod c + (n - j)) mod c"
      by (simp only: mod_add_left_eq)
    moreover have "(h + j) mod c < c" using assms by simp
    moreover have "0 < n - j" "n - j < c" using that assms by simp_all
    ultimately show False
      using slot_neq [of "(h + j) mod c" c "n - j"] e by simp
  qed
  have "(h + n) mod c < length b"
    using assms by simp
  then show ?thesis
    using neq by simp
qed

lemma contents_push_full:
  fixes h c :: nat
  assumes "0 < c" "h < c" "length b = c"
  shows "map (\<lambda>j. b[h := x] ! ((Suc h mod c + j) mod c)) [0..<c]
    = tl (map (\<lambda>j. b ! ((h + j) mod c)) [0..<c]) @ [x]"
proof (rule nth_equalityI)
  show "length (map (\<lambda>j. b[h := x] ! ((Suc h mod c + j) mod c)) [0..<c])
      = length (tl (map (\<lambda>j. b ! ((h + j) mod c)) [0..<c]) @ [x])"
    using assms by simp
next
  fix i
  assume "i < length (map (\<lambda>j. b[h := x] ! ((Suc h mod c + j) mod c)) [0..<c])"
  then have i: "i < c" by simp
  show "map (\<lambda>j. b[h := x] ! ((Suc h mod c + j) mod c)) [0..<c] ! i
      = (tl (map (\<lambda>j. b ! ((h + j) mod c)) [0..<c]) @ [x]) ! i"
  proof (cases "Suc i < c")
    case True
    then have "(h + Suc i) mod c \<noteq> h"
      using slot_neq [of h c "Suc i"] assms by simp
    moreover from True have "i < c - 1" by simp
    ultimately show ?thesis
      using True i assms by (simp add: slot_shift nth_append nth_tl)
  next
    case False
    then have "Suc i = c" using i by simp
    then have "Suc (h + i) = h + c"
      by simp
    then have "Suc (h + i) mod c = h"
      using assms by (simp only: mod_add_self2 mod_less)
    then show ?thesis
      using False i assms \<open>Suc i = c\<close> by (auto simp add: slot_shift nth_append)
  qed
qed

lemma contents_pop:
  fixes h c n :: nat
  assumes "0 < n" "n \<le> c" "h < c" "length b = c"
  shows "map (\<lambda>j. b[h := y] ! ((Suc h mod c + j) mod c)) [0..<n - 1]
    = tl (map (\<lambda>j. b ! ((h + j) mod c)) [0..<n])"
proof (rule nth_equalityI)
  show "length (map (\<lambda>j. b[h := y] ! ((Suc h mod c + j) mod c)) [0..<n - 1])
      = length (tl (map (\<lambda>j. b ! ((h + j) mod c)) [0..<n]))"
    by simp
next
  fix i
  assume "i < length (map (\<lambda>j. b[h := y] ! ((Suc h mod c + j) mod c)) [0..<n - 1])"
  then have i: "Suc i < n" by simp
  then have "(h + Suc i) mod c \<noteq> h"
    using slot_neq [of h c "Suc i"] assms by simp
  then show "map (\<lambda>j. b[h := y] ! ((Suc h mod c + j) mod c)) [0..<n - 1] ! i
      = tl (map (\<lambda>j. b ! ((h + j) mod c)) [0..<n]) ! i"
    using i assms by (simp add: slot_shift nth_tl)
qed


section \<open>What one call does to the logical contents\<close>

lemma invariant_capacity_nonzero: "invariant s \<Longrightarrow> capacity_m s \<noteq> 0"
  by (auto simp: invariant_def)

lemma length_contents: "length (contents s) = unat (size_m s)"
  by (simp add: contents_def)

lemma push_correct:
  assumes "invariant s"
  shows "\<exists>s'. push x s = Some s' \<and> invariant s' \<and> capacity_m s' = capacity_m s
    \<and> length (buffer_m s') = length (buffer_m s)
    \<and> contents s' = (if unat (size_m s) < unat (capacity_m s)
                      then contents s @ [x] else tl (contents s) @ [x])"
proof -
  let ?c = "unat (capacity_m s)" and ?h = "unat (head_m s)"
  let ?t = "unat (tail_m s)" and ?n = "unat (size_m s)"
  let ?b = "(buffer_m s)[?t := x]"
  from assms have c: "1 \<le> ?c" and len: "length (buffer_m s) = ?c" and h: "?h < ?c"
    and t: "?t < ?c" and n: "?n \<le> ?c" and ht: "?t = (?h + ?n) mod ?c"
    by (simp_all add: invariant_def)
  from c have c0: "capacity_m s \<noteq> 0" by auto
  have t': "unat ((tail_m s + 1) mod capacity_m s) = Suc ?t mod ?c"
    using t by (rule unat_incr_mod)
  have h': "unat ((head_m s + 1) mod capacity_m s) = Suc ?h mod ?c"
    using h by (rule unat_incr_mod)
  show ?thesis
  proof (cases "size_m s < capacity_m s")
    case True
    then have lt: "?n < ?c" by (simp add: word_less_nat_alt)
    then have n': "unat (size_m s + 1) = Suc ?n" by (rule unat_incr)
    let ?s' = "s\<lparr>buffer_m := ?b, tail_m := (tail_m s + 1) mod capacity_m s, size_m := size_m s + 1\<rparr>"
    have p: "push x s = Some ?s'"
      using True c0 t len by (simp add: push_def assign_def rem_op_def)
    have "Suc ?t mod ?c = (?h + Suc ?n) mod ?c"
      using ht by (simp add: mod_Suc_eq)
    then have i: "invariant ?s'"
      using c len h lt t' n' by (simp add: invariant_def)
    have "contents ?s' = map (\<lambda>j. ?b ! ((?h + j) mod ?c)) [0..<Suc ?n]"
      by (simp add: contents_def slot_def n')
    also have "\<dots> = contents s @ [x]"
      unfolding ht contents_def slot_def using lt h len by (rule contents_push_nonfull)
    finally show ?thesis
      using p i lt by simp
  next
    case False
    then have eq: "?n = ?c" using n by (simp add: word_less_nat_alt)
    then have th: "?t = ?h" using ht h by simp
    let ?s' = "s\<lparr>buffer_m := ?b, tail_m := (tail_m s + 1) mod capacity_m s,
                 head_m := (head_m s + 1) mod capacity_m s\<rparr>"
    have p: "push x s = Some ?s'"
      using False c0 t len by (simp add: push_def assign_def rem_op_def)
    have i: "invariant ?s'"
      using c len t' h' th eq by (simp add: invariant_def)
    have "contents ?s' = map (\<lambda>j. (buffer_m s)[?h := x] ! ((Suc ?h mod ?c + j) mod ?c)) [0..<?c]"
      by (simp add: contents_def slot_def h' th eq)
    also have "\<dots> = tl (map (\<lambda>j. buffer_m s ! ((?h + j) mod ?c)) [0..<?c]) @ [x]"
      using c h len by (intro contents_push_full) simp_all
    also have "\<dots> = tl (contents s) @ [x]"
      by (simp add: contents_def slot_def eq)
    finally show ?thesis
      using p i eq by simp
  qed
qed

lemma pop_correct:
  assumes "invariant s" and "size_m s \<noteq> 0"
  shows "\<exists>s'. pop mv s = Some (Inr (hd (contents s)), s') \<and> invariant s'
    \<and> capacity_m s' = capacity_m s \<and> length (buffer_m s') = length (buffer_m s)
    \<and> contents s' = tl (contents s)
    \<and> head_m s' = (head_m s + 1) mod capacity_m s \<and> size_m s' = size_m s - 1
    \<and> tail_m s' = tail_m s"
proof -
  let ?c = "unat (capacity_m s)" and ?h = "unat (head_m s)"
  let ?t = "unat (tail_m s)" and ?n = "unat (size_m s)"
  let ?x = "buffer_m s ! ?h"
  from assms have c: "1 \<le> ?c" and len: "length (buffer_m s) = ?c" and h: "?h < ?c"
    and t: "?t < ?c" and n: "?n \<le> ?c" and ht: "?t = (?h + ?n) mod ?c"
    by (simp_all add: invariant_def)
  from c have c0: "capacity_m s \<noteq> 0" by auto
  from assms(2) have n0: "0 < ?n" by (simp add: unat_gt_0)
  have n': "unat (size_m s - 1) = ?n - 1"
    using assms(2) by (rule unat_minus_one)
  have h': "unat ((head_m s + 1) mod capacity_m s) = Suc ?h mod ?c"
    using h by (rule unat_incr_mod)
  let ?s' = "s\<lparr>buffer_m := (buffer_m s)[?h := mv ?x],
               head_m := (head_m s + 1) mod capacity_m s, size_m := size_m s - 1\<rparr>"
  have hd: "hd (contents s) = ?x"
    using n0 h by (simp add: contents_def slot_def hd_map upt_conv_Cons)
  have p: "pop mv s = Some (Inr ?x, ?s')"
    using assms(2) c0 h len by (simp add: pop_def empty_rb_def subscript_def rem_op_def)
  have "?h + Suc (?n - 1) = ?h + ?n"
    using n0 by simp
  then have "(Suc ?h mod ?c + (?n - 1)) mod ?c = (?h + ?n) mod ?c"
    by (simp only: slot_shift)
  then have i: "invariant ?s'"
    using c len h' n' n ht by (simp add: invariant_def)
  have "contents ?s' = map (\<lambda>j. (buffer_m s)[?h := mv ?x] ! ((Suc ?h mod ?c + j) mod ?c)) [0..<?n - 1]"
    by (simp add: contents_def slot_def h' n')
  also have "\<dots> = tl (map (\<lambda>j. buffer_m s ! ((?h + j) mod ?c)) [0..<?n])"
    using n0 n h len by (rule contents_pop)
  also have "\<dots> = tl (contents s)"
    by (simp add: contents_def slot_def)
  finally show ?thesis
    using p i hd by simp
qed


section \<open>Sequences of calls\<close>

lemma emplace_eq_push: "emplace ctor a s = push (ctor a) s"
  by (simp add: emplace_def push_def)

lemma try_pop_eq_pop:
  "try_pop mv s out_item =
     (case pop mv s of
        None \<Rightarrow> None
      | Some (Inl e, s') \<Rightarrow> Some (False, s', out_item)
      | Some (Inr v, s') \<Rightarrow> Some (True, s', v))"
  by (simp add: try_pop_def pop_def split: option.splits)

lemma pop_empty:
  "size_m s = 0 \<Longrightarrow> pop mv s = Some (Inl (out_of_range ''Cannot pop from an empty RingBuffer.''), s)"
  by (simp add: pop_def empty_rb_def)

lemma clear_invariant:
  assumes "invariant s"
  shows "invariant (clear s) \<and> capacity_m (clear s) = capacity_m s
    \<and> length (buffer_m (clear s)) = length (buffer_m s)"
  using assms by (simp add: invariant_def clear_def)

lemma step_invariant:
  assumes "invariant s"
  shows "\<exists>s'. step mv ctor x s = Some s' \<and> invariant s' \<and> capacity_m s' = capacity_m s
    \<and> length (buffer_m s') = length (buffer_m s)"
proof (cases x)
  case (Push v)
  then show ?thesis using push_correct [OF assms, of v] by auto
next
  case (Emplace a)
  then show ?thesis using push_correct [OF assms, of "ctor a"] by (auto simp: emplace_eq_push)
next
  case (TryPush v)
  then show ?thesis
    using push_correct [OF assms, of v] assms by (auto simp: try_push_def)
next
  case Pop
  show ?thesis
  proof (cases "size_m s = 0")
    case True
    then show ?thesis using Pop assms by (simp add: pop_empty)
  next
    case False
    then show ?thesis using Pop pop_correct [OF assms False, of mv] by auto
  qed
next
  case (TryPop out_item)
  show ?thesis
  proof (cases "size_m s = 0")
    case True
    then show ?thesis using TryPop assms by (simp add: try_pop_eq_pop pop_empty)
  next
    case False
    then show ?thesis
      using TryPop pop_correct [OF assms False, of mv] by (auto simp: try_pop_eq_pop)
  qed
next
  case Clear
  then show ?thesis using clear_invariant [OF assms] by simp
qed

lemma run_invariant:
  assumes "invariant s"
  shows "\<exists>s'. run mv ctor xs s = Some s' \<and> invariant s' \<and> capacity_m s' = capacity_m s
    \<and> length (buffer_m s') = length (buffer_m s)"
  using assms
proof (induction xs arbitrary: s)
  case Nil
  then show ?case by simp
next
  case (Cons x xs)
  from step_invariant [OF Cons.prems, of mv ctor x]
  obtain s1 where s1: "step mv ctor x s = Some s1" "invariant s1"
      "capacity_m s1 = capacity_m s" "length (buffer_m s1) = length (buffer_m s)"
    by blast
  from Cons.IH [OF s1(2)] s1 show ?case by auto
qed

lemma new_Inr:
  assumes "new mx al dflt c = Inr s"
  shows "s = \<lparr>buffer_m = replicate (unat c) dflt, capacity_m = c, head_m = 0, tail_m = 0, size_m = 0\<rparr>
    \<and> c \<noteq> 0 \<and> unat c \<le> mx \<and> al (unat c)"
  using assms by (auto simp: new_def vector_n_def split: if_splits)

lemma new_invariant:
  assumes "new mx al dflt c = Inr s"
  shows "invariant s \<and> capacity_m s = c \<and> length (buffer_m s) \<le> mx"
proof -
  from new_Inr [OF assms] have "0 < unat c"
    by (simp add: unat_gt_0)
  with new_Inr [OF assms] show ?thesis
    by (simp add: invariant_def)
qed

lemma drop_last_window:
  fixes c :: nat
  shows "drop (length (drop (length ys - c) ys @ vs) - c) (drop (length ys - c) ys @ vs)
    = drop (length (ys @ vs) - c) (ys @ vs)"
  by (cases "length ys \<le> c") (simp_all add: add.commute)

lemma push_all_correct:
  assumes "invariant s"
  shows "\<exists>s'. push_all vs s = Some s' \<and> invariant s' \<and> capacity_m s' = capacity_m s
    \<and> contents s' = drop (length (contents s @ vs) - unat (capacity_m s)) (contents s @ vs)"
  using assms
proof (induction vs arbitrary: s)
  case Nil
  then show ?case by (simp add: length_contents invariant_def)
next
  case (Cons v vs)
  let ?c = "unat (capacity_m s)"
  from push_correct [OF Cons.prems, of v]
  obtain s1 where s1: "push v s = Some s1" "invariant s1" "capacity_m s1 = capacity_m s"
      "contents s1 = (if unat (size_m s) < ?c then contents s @ [v] else tl (contents s) @ [v])"
    by blast
  from Cons.prems have "unat (size_m s) \<le> ?c" "1 \<le> ?c"
    by (simp_all add: invariant_def)
  then have w: "contents s1 = drop (length (contents s @ [v]) - ?c) (contents s @ [v])"
    using s1(4) by (auto simp: length_contents drop_Suc)
  from Cons.IH [OF s1(2)]
  obtain s' where s': "push_all vs s1 = Some s'" "invariant s'" "capacity_m s' = capacity_m s1"
      "contents s' = drop (length (contents s1 @ vs) - unat (capacity_m s1)) (contents s1 @ vs)"
    by blast
  have "contents s' = drop (length ((contents s @ [v]) @ vs) - ?c) ((contents s @ [v]) @ vs)"
    unfolding s'(4) s1(3) w by (rule drop_last_window)
  then show ?case
    using s1 s' by simp
qed

lemma pops_correct:
  assumes "invariant s" and "n \<le> unat (size_m s)"
  shows "\<exists>s'. pops mv n s = Some (Inr (take n (contents s)), s') \<and> invariant s'
    \<and> capacity_m s' = capacity_m s \<and> contents s' = drop n (contents s)"
  using assms
proof (induction n arbitrary: s)
  case 0
  then show ?case by simp
next
  case (Suc n)
  then have ne: "size_m s \<noteq> 0" by auto
  from pop_correct [OF Suc.prems(1) ne, of mv]
  obtain s1 where s1: "pop mv s = Some (Inr (hd (contents s)), s1)" "invariant s1"
      "capacity_m s1 = capacity_m s" "contents s1 = tl (contents s)" "size_m s1 = size_m s - 1"
    by blast
  have "unat (size_m s1) = unat (size_m s) - 1"
    unfolding s1(5) using ne by (rule unat_minus_one)
  with Suc.prems have "n \<le> unat (size_m s1)" by simp
  from Suc.IH [OF s1(2) this]
  obtain s' where s': "pops mv n s1 = Some (Inr (take n (contents s1)), s')" "invariant s'"
      "capacity_m s' = capacity_m s1" "contents s' = drop n (contents s1)"
    by blast
  from Suc.prems have "contents s \<noteq> []"
    using length_contents [of s] by auto
  then have "take (Suc n) (contents s) = hd (contents s) # take n (tl (contents s))"
    by (cases "contents s") simp_all
  then show ?case
    using s1 s' by (simp add: drop_Suc)
qed

lemma drain_correct:
  assumes "invariant s"
  shows "\<exists>s'. drain mv s = Some (Inr (contents s), s') \<and> invariant s'
    \<and> capacity_m s' = capacity_m s \<and> size_m s' = 0"
  using assms
proof (induction "unat (size_m s)" arbitrary: s)
  case 0
  then have "size_m s = 0" by (simp add: unat_eq_0)
  then show ?case
    using "0.prems" by (subst drain.simps) (simp add: empty_rb_def contents_def)
next
  case (Suc n)
  then have ne: "size_m s \<noteq> 0" by auto
  from pop_correct [OF Suc.prems ne, of mv]
  obtain s1 where s1: "pop mv s = Some (Inr (hd (contents s)), s1)" "invariant s1"
      "capacity_m s1 = capacity_m s" "contents s1 = tl (contents s)" "size_m s1 = size_m s - 1"
    by blast
  have "unat (size_m s1) = unat (size_m s) - 1"
    unfolding s1(5) using ne by (rule unat_minus_one)
  with Suc.hyps(2) have "n = unat (size_m s1)" by simp
  from Suc.hyps(1) [OF this s1(2)]
  obtain s' where s': "drain mv s1 = Some (Inr (contents s1), s')" "invariant s'"
      "capacity_m s' = capacity_m s1" "size_m s' = 0"
    by blast
  from Suc.hyps(2) have "contents s \<noteq> []"
    using length_contents [of s] by auto
  then have "hd (contents s) # tl (contents s) = contents s"
    by simp
  then show ?case
    using s1 s' ne by (subst drain.simps) (simp add: empty_rb_def)
qed


section \<open>Random access and traversal\<close>

text \<open>
  No sum \<open>head + index\<close> with \<open>index \<le> size\<close> wraps around: both operands are at most
  the capacity, which is the length of a vector and so at most \<open>vector_max_size\<close>.
  Every state that calls of the mutating member functions reach from a constructed
  buffer has the invariant and this bound, \<^verbatim>\<open>max_size()\<close> being at most
  \<open>vector_max_size\<close>.
\<close>

lemma constructed_buffer_well_formed:
  assumes "new mx al dflt c = Inr s0" and "mx \<le> vector_max_size"
    and "run mv ctor xs s0 = Some s"
  shows "invariant s \<and> length (buffer_m s) \<le> vector_max_size \<and> capacity_m s = c"
proof -
  from new_invariant [OF assms(1)] assms(2) have "invariant s0" and "capacity_m s0 = c"
    and "length (buffer_m s0) \<le> vector_max_size"
    by simp_all
  with run_invariant [of s0 mv ctor xs] assms(3) show ?thesis
    by auto
qed

lemma hd_contents:
  assumes "invariant s" and "size_m s \<noteq> 0"
  shows "hd (contents s) = buffer_m s ! unat (head_m s)"
proof -
  from assms(2) have "0 < unat (size_m s)"
    by (simp add: unat_gt_0)
  moreover from assms(1) have "unat (head_m s) < unat (capacity_m s)"
    by (simp add: invariant_def)
  ultimately show ?thesis
    by (simp add: contents_def slot_def hd_map upt_conv_Cons)
qed

lemma slot_in_range:
  assumes "invariant s"
  shows "slot s j < length (buffer_m s)"
  using assms by (simp add: invariant_def slot_def)

lemma unat_slot:
  assumes "invariant s" and "length (buffer_m s) \<le> vector_max_size"
    and "unat i \<le> unat (size_m s)"
  shows "unat ((head_m s + i) mod capacity_m s) = slot s (unat i)"
proof -
  from assms have "unat (head_m s) + unat i < 2 ^ 64"
    by (simp add: invariant_def vector_max_size_def)
  then show ?thesis
    unfolding slot_def by (rule unat_add_mod)
qed

lemma at_in_range:
  assumes "invariant s" and "length (buffer_m s) \<le> vector_max_size" and "i < size_m s"
  shows "at s i = Some (Inr (buffer_m s ! slot s (unat i)), s)"
    and "at_const s i = Some (Inr (buffer_m s ! slot s (unat i)), s)"
    and "contents s ! unat i = buffer_m s ! slot s (unat i)"
proof -
  from assms(3) have lt: "unat i < unat (size_m s)"
    by (simp add: word_less_nat_alt)
  then have u: "unat ((head_m s + i) mod capacity_m s) = slot s (unat i)"
    using assms(1,2) by (intro unat_slot) simp_all
  have c0: "capacity_m s \<noteq> 0"
    using assms(1) by (rule invariant_capacity_nonzero)
  have n: "\<not> size_m s \<le> i"
    using assms(3) by simp
  show "at s i = Some (Inr (buffer_m s ! slot s (unat i)), s)"
    using n c0 u slot_in_range [OF assms(1), of "unat i"]
    by (simp add: at_def rem_op_def subscript_def)
  show "at_const s i = Some (Inr (buffer_m s ! slot s (unat i)), s)"
    using n c0 u slot_in_range [OF assms(1), of "unat i"]
    by (simp add: at_const_def rem_op_def subscript_def)
  show "contents s ! unat i = buffer_m s ! slot s (unat i)"
    using lt by (simp add: contents_def)
qed

lemma deref_at_index:
  assumes "invariant s" and "length (buffer_m s) \<le> vector_max_size"
    and "unat i \<le> unat (size_m s)"
  shows "deref ((begin_rb s)\<lparr>current_logical_index_m := i\<rparr>) = Some (buffer_m s ! slot s (unat i))"
proof -
  have "capacity_m s \<noteq> 0"
    using assms(1) by (rule invariant_capacity_nonzero)
  then show ?thesis
    using unat_slot [OF assms] slot_in_range [OF assms(1), of "unat i"]
    by (simp add: deref_def begin_rb_def rem_op_def subscript_def)
qed

lemma traverse_from:
  assumes "invariant s" and "length (buffer_m s) \<le> vector_max_size"
    and "unat i \<le> unat (size_m s)"
  shows "traverse ((begin_rb s)\<lparr>current_logical_index_m := i\<rparr>) (end_rb s)
    = Some (map (\<lambda>j. buffer_m s ! slot s j) [unat i..<unat (size_m s)])"
  using assms(3)
proof (induction "unat (size_m s) - unat i" arbitrary: i)
  case 0
  then have "i = size_m s"
    by (simp add: word_unat_eq_iff)
  then show ?case
    by (subst traverse.simps) (simp add: iter_neq_def iter_eq_def begin_rb_def end_rb_def)
next
  case (Suc d)
  then have lt: "unat i < unat (size_m s)"
    by simp
  then have ne: "i \<noteq> size_m s"
    by auto
  have u: "unat (i + 1) = Suc (unat i)"
    using lt by (rule unat_incr)
  have "traverse ((begin_rb s)\<lparr>current_logical_index_m := i + 1\<rparr>) (end_rb s)
      = Some (map (\<lambda>j. buffer_m s ! slot s j) [unat (i + 1)..<unat (size_m s)])"
    using Suc.hyps(2) lt u by (intro Suc.hyps(1)) simp_all
  moreover have "deref ((begin_rb s)\<lparr>current_logical_index_m := i\<rparr>)
      = Some (buffer_m s ! slot s (unat i))"
    using assms(1,2) Suc.prems by (rule deref_at_index)
  moreover have "incr ((begin_rb s)\<lparr>current_logical_index_m := i\<rparr>)
      = (begin_rb s)\<lparr>current_logical_index_m := i + 1\<rparr>"
    by (simp add: incr_def)
  moreover have "iter_neq ((begin_rb s)\<lparr>current_logical_index_m := i\<rparr>) (end_rb s)"
    using ne by (simp add: iter_neq_def iter_eq_def end_rb_def)
  ultimately show ?case
    using lt u by (subst traverse.simps) (simp add: upt_conv_Cons)
qed

lemma traverse_contents:
  assumes "invariant s" and "length (buffer_m s) \<le> vector_max_size"
  shows "traverse (begin_rb s) (end_rb s) = Some (contents s)"
proof -
  have "(begin_rb s)\<lparr>current_logical_index_m := 0\<rparr> = begin_rb s"
    by (simp add: begin_rb_def)
  with traverse_from [OF assms, of 0] show ?thesis
    by (simp add: contents_def)
qed


text \<open>
  A traversal between any two iterators into a storage of \<open>capacity \<ge> 1\<close> slots
  accesses it in range, wherever the iterators stand.
\<close>

lemma traverse_defined:
  assumes "buffer_capacity_m it \<noteq> 0"
    and "length (data_ptr_m it) = unat (buffer_capacity_m it)"
  shows "traverse it fin \<noteq> None"
  using assms
proof (induction it fin rule: traverse.induct)
  case (1 it fin)
  have "unat ((buffer_head_m it + current_logical_index_m it) mod buffer_capacity_m it)
      < unat (buffer_capacity_m it)"
    using "1.prems"(1) by (simp add: unat_mod unat_gt_0)
  then obtain x where x: "deref it = Some x"
    using "1.prems" by (simp add: deref_def rem_op_def subscript_def)
  show ?case
  proof (cases "iter_neq it fin")
    case True
    have "traverse (incr it) fin \<noteq> None"
      using "1.prems" by (intro "1.IH" [OF True x]) (simp_all add: incr_def)
    then show ?thesis
      using True x by (subst traverse.simps) auto
  next
    case False
    then show ?thesis
      by (subst traverse.simps) simp
  qed
qed


section \<open>The claims\<close>

text \<open>
  Claim C1. Take any buffer the constructor has returned for a capacity \<open>c\<close>, and any
  sequence of calls of \<^verbatim>\<open>push\<close>, \<^verbatim>\<open>emplace\<close>, \<^verbatim>\<open>try_push\<close>, \<^verbatim>\<open>pop\<close>, \<^verbatim>\<open>try_pop\<close> and
  \<^verbatim>\<open>clear\<close>. The sequence runs without undefined behaviour, and in the state it ends in
  (so after each call, every prefix being such a sequence) \<open>head\<close> and \<open>tail\<close> are
  below the capacity, \<open>0 \<le> size \<le> capacity\<close>, \<open>tail = (head + size) mod capacity\<close> and
  the capacity is still \<open>c\<close>.
\<close>

theorem structural_invariants_hold:
  assumes "new mx al dflt c = Inr s0"
  shows "\<exists>s. run mv ctor xs s0 = Some s
    \<and> unat (head_m s) < unat (capacity_m s)
    \<and> unat (tail_m s) < unat (capacity_m s)
    \<and> 0 \<le> unat (size_rb s) \<and> unat (size_rb s) \<le> unat (capacity s)
    \<and> unat (tail_m s) = (unat (head_m s) + unat (size_m s)) mod unat (capacity_m s)
    \<and> capacity s = c"
proof -
  from new_invariant [OF assms] have "invariant s0" and "capacity_m s0 = c"
    by simp_all
  with run_invariant [of s0 mv ctor xs] show ?thesis
    by (auto simp: invariant_def size_rb_def capacity_def)
qed

theorem structural_invariants_hold_witness:
  "new (2 ^ 61 - 1) (\<lambda>n. n \<le> 1000) (0::nat) 3
     = Inr \<lparr>buffer_m = [0, 0, 0], capacity_m = 3, head_m = 0, tail_m = 0, size_m = 0\<rparr>
   \<and> (\<exists>s. run (\<lambda>x. 0) Suc
             [Push 1, Push 2, Push 3, Push 4, Pop, TryPush 5, Emplace 6, TryPop 0, Pop, Pop,
              Pop, Clear, TryPop 0, Push 7]
             \<lparr>buffer_m = [0, 0, 0], capacity_m = 3, head_m = 0, tail_m = 0, size_m = 0\<rparr> = Some s
        \<and> unat (head_m s) < unat (capacity_m s)
        \<and> unat (tail_m s) < unat (capacity_m s)
        \<and> 0 \<le> unat (size_rb s) \<and> unat (size_rb s) \<le> unat (capacity s)
        \<and> unat (tail_m s) = (unat (head_m s) + unat (size_m s)) mod unat (capacity_m s)
        \<and> capacity s = 3)"
proof -
  have h: "new (2 ^ 61 - 1) (\<lambda>n. n \<le> 1000) (0::nat) 3
     = Inr \<lparr>buffer_m = [0, 0, 0], capacity_m = 3, head_m = 0, tail_m = 0, size_m = 0\<rparr>"
  proof -
    have "replicate 3 (0::nat) = [0, 0, 0]"
      by (simp add: numeral_3_eq_3)
    then show ?thesis
      by (simp add: new_def vector_n_def)
  qed
  from structural_invariants_hold [OF h] h show ?thesis
    by blast
qed

text \<open>
  Claim C2. Into an empty buffer of capacity \<open>c\<close> (wherever its head stands), push
  \<open>n \<le> c\<close> values \<open>vs\<close>; \<open>n\<close> calls of \<^verbatim>\<open>pop\<close> then all succeed and return exactly
  \<open>vs\<close>, in the order pushed.
\<close>

theorem fifo_order:
  assumes "invariant s" and "size_rb s = 0" and "length vs \<le> unat (capacity s)"
  shows "\<exists>s1 s2. push_all vs s = Some s1 \<and> pops mv (length vs) s1 = Some (Inr vs, s2)"
proof -
  from assms(2) have e: "contents s = []"
    by (simp add: contents_def size_rb_def)
  from push_all_correct [OF assms(1), of vs]
  obtain s1 where s1: "push_all vs s = Some s1" "invariant s1" "contents s1 = vs"
    using assms(3) e by (auto simp: capacity_def)
  then have "length vs \<le> unat (size_m s1)"
    using length_contents [of s1] by simp
  from pops_correct [OF s1(2) this, of mv] s1 show ?thesis
    by auto
qed

theorem fifo_order_witness:
  "invariant \<lparr>buffer_m = [0, 0, 0::nat], capacity_m = 3, head_m = 2, tail_m = 2, size_m = 0\<rparr>
   \<and> size_rb \<lparr>buffer_m = [0, 0, 0::nat], capacity_m = 3, head_m = 2, tail_m = 2, size_m = 0\<rparr> = 0
   \<and> length [10, 20, 30::nat]
       \<le> unat (capacity \<lparr>buffer_m = [0, 0, 0::nat], capacity_m = 3, head_m = 2, tail_m = 2, size_m = 0\<rparr>)
   \<and> (\<exists>s1 s2. push_all [10, 20, 30]
                  \<lparr>buffer_m = [0, 0, 0::nat], capacity_m = 3, head_m = 2, tail_m = 2, size_m = 0\<rparr>
                = Some s1
        \<and> pops (\<lambda>x. 0) (length [10, 20, 30::nat]) s1 = Some (Inr [10, 20, 30], s2))"
proof -
  let ?s = "\<lparr>buffer_m = [0, 0, 0::nat], capacity_m = 3, head_m = 2, tail_m = 2, size_m = 0\<rparr>"
  have h1: "invariant ?s"
    by (simp add: invariant_def)
  have h2: "size_rb ?s = 0"
    by (simp add: size_rb_def)
  have h3: "length [10, 20, 30::nat] \<le> unat (capacity ?s)"
    by (simp add: capacity_def)
  from fifo_order [OF h1 h2 h3] h1 h2 h3 show ?thesis
    by blast
qed

text \<open>
  Claim C3. Into an empty buffer of capacity \<open>c\<close> push \<open>c + k\<close> values with \<open>k \<ge> 1\<close>,
  then pop until the buffer is empty: the values popped are exactly the last \<open>c\<close>
  pushed (all but the first \<open>k\<close>), in the order pushed.
\<close>

theorem overwrite_keeps_newest:
  assumes "invariant s" and "size_rb s = 0"
    and "length vs = unat (capacity s) + k" and "1 \<le> k"
  shows "\<exists>s1 s2. push_all vs s = Some s1 \<and> drain mv s1 = Some (Inr (drop k vs), s2)
    \<and> empty_rb s2 \<and> length (drop k vs) = unat (capacity s)"
proof -
  from assms(2) have e: "contents s = []"
    by (simp add: contents_def size_rb_def)
  from push_all_correct [OF assms(1), of vs]
  obtain s1 where s1: "push_all vs s = Some s1" "invariant s1" "contents s1 = drop k vs"
    using assms(3) e by (auto simp: capacity_def)
  from drain_correct [OF s1(2), of mv] s1 assms(3) show ?thesis
    by (auto simp: empty_rb_def capacity_def)
qed

theorem overwrite_keeps_newest_witness:
  "invariant \<lparr>buffer_m = [0, 0, 0::nat], capacity_m = 3, head_m = 2, tail_m = 2, size_m = 0\<rparr>
   \<and> size_rb \<lparr>buffer_m = [0, 0, 0::nat], capacity_m = 3, head_m = 2, tail_m = 2, size_m = 0\<rparr> = 0
   \<and> length [10, 20, 30, 40, 50::nat]
       = unat (capacity \<lparr>buffer_m = [0, 0, 0::nat], capacity_m = 3, head_m = 2, tail_m = 2, size_m = 0\<rparr>) + 2
   \<and> (1::nat) \<le> 2
   \<and> (\<exists>s1 s2. push_all [10, 20, 30, 40, 50]
                  \<lparr>buffer_m = [0, 0, 0::nat], capacity_m = 3, head_m = 2, tail_m = 2, size_m = 0\<rparr>
                = Some s1
        \<and> drain (\<lambda>x. 0) s1 = Some (Inr [30, 40, 50], s2) \<and> empty_rb s2)"
proof -
  let ?s = "\<lparr>buffer_m = [0, 0, 0::nat], capacity_m = 3, head_m = 2, tail_m = 2, size_m = 0\<rparr>"
  have h1: "invariant ?s"
    by (simp add: invariant_def)
  have h2: "size_rb ?s = 0"
    by (simp add: size_rb_def)
  have h3: "length [10, 20, 30, 40, 50::nat] = unat (capacity ?s) + 2"
    by (simp add: capacity_def)
  have h4: "(1::nat) \<le> 2"
    by simp
  have d: "drop 2 [10, 20, 30, 40, 50::nat] = [30, 40, 50]"
    by (simp add: numeral_2_eq_2)
  from overwrite_keeps_newest [OF h1 h2 h3 h4, of "\<lambda>x. 0"] h1 h2 h3 h4 show ?thesis
    unfolding d by blast
qed

text \<open>
  Claim C4. On a full buffer \<^verbatim>\<open>try_push\<close> returns false and the object is unchanged, so
  \<^verbatim>\<open>size()\<close>, \<^verbatim>\<open>front()\<close> and every \<^verbatim>\<open>at(i)\<close> answer as before. On a buffer that is not
  full it does what \<^verbatim>\<open>push\<close> does and returns true.
\<close>

theorem try_push_rejects_when_full:
  "(full s \<longrightarrow>
      (\<exists>s'. try_push x s = Some (False, s') \<and> s' = s \<and> size_rb s' = size_rb s
         \<and> front s' = front s \<and> (\<forall>i. at s' i = at s i)))
   \<and> (\<not> full s \<longrightarrow> try_push x s = map_option (Pair True) (push x s))
   \<and> (\<not> full s \<and> invariant s \<longrightarrow>
        (\<exists>s'. push x s = Some s' \<and> try_push x s = Some (True, s')))"
proof (intro conjI impI)
  assume "full s"
  then show "\<exists>s'. try_push x s = Some (False, s') \<and> s' = s \<and> size_rb s' = size_rb s
      \<and> front s' = front s \<and> (\<forall>i. at s' i = at s i)"
    by (simp add: try_push_def)
next
  assume "\<not> full s"
  then show "try_push x s = map_option (Pair True) (push x s)"
    by (simp add: try_push_def split: option.splits)
next
  assume a: "\<not> full s \<and> invariant s"
  then obtain s' where "push x s = Some s'"
    using push_correct [of s x] by blast
  with a show "\<exists>s'. push x s = Some s' \<and> try_push x s = Some (True, s')"
    by (simp add: try_push_def)
qed

theorem try_push_rejects_when_full_witness:
  "full \<lparr>buffer_m = [4, 2, 3::nat], capacity_m = 3, head_m = 1, tail_m = 1, size_m = 3\<rparr>
   \<and> try_push 5 \<lparr>buffer_m = [4, 2, 3::nat], capacity_m = 3, head_m = 1, tail_m = 1, size_m = 3\<rparr>
       = Some (False, \<lparr>buffer_m = [4, 2, 3], capacity_m = 3, head_m = 1, tail_m = 1, size_m = 3\<rparr>)
   \<and> \<not> full \<lparr>buffer_m = [4, 2, 3::nat], capacity_m = 3, head_m = 2, tail_m = 1, size_m = 2\<rparr>
   \<and> invariant \<lparr>buffer_m = [4, 2, 3::nat], capacity_m = 3, head_m = 2, tail_m = 1, size_m = 2\<rparr>
   \<and> try_push 5 \<lparr>buffer_m = [4, 2, 3::nat], capacity_m = 3, head_m = 2, tail_m = 1, size_m = 2\<rparr>
       = Some (True, \<lparr>buffer_m = [4, 5, 3], capacity_m = 3, head_m = 2, tail_m = 2, size_m = 3\<rparr>)"
proof -
  let ?f = "\<lparr>buffer_m = [4, 2, 3::nat], capacity_m = 3, head_m = 1, tail_m = 1, size_m = 3\<rparr>"
  let ?n = "\<lparr>buffer_m = [4, 2, 3::nat], capacity_m = 3, head_m = 2, tail_m = 1, size_m = 2\<rparr>"
  have f: "full ?f"
    by (simp add: full_def)
  have n: "\<not> full ?n"
    by (simp add: full_def)
  have i: "invariant ?n"
    by (simp add: invariant_def)
  have p: "push 5 ?n = Some \<lparr>buffer_m = [4, 5, 3], capacity_m = 3, head_m = 2, tail_m = 2, size_m = 3\<rparr>"
    by (simp add: push_def assign_def rem_op_def)
  from try_push_rejects_when_full [of ?f 5] f
  have "try_push 5 ?f = Some (False, ?f)"
    by blast
  moreover from try_push_rejects_when_full [of ?n 5] n i p
  have "try_push 5 ?n
      = Some (True, \<lparr>buffer_m = [4, 5, 3], capacity_m = 3, head_m = 2, tail_m = 2, size_m = 3\<rparr>)"
    by simp
  ultimately show ?thesis
    using f n i by blast
qed

text \<open>
  Claim C5. On a buffer of size 0, \<^verbatim>\<open>pop\<close> and \<^verbatim>\<open>front\<close> throw \<^verbatim>\<open>std::out_of_range\<close> (the
  empty-buffer error) and \<^verbatim>\<open>try_pop\<close> returns false; all three leave the object, and
  \<^verbatim>\<open>try_pop\<close> its output parameter, unchanged. On a buffer that is not empty, \<^verbatim>\<open>pop\<close>
  and \<^verbatim>\<open>try_pop\<close> hand out the element in slot \<open>head\<close>, the oldest one, remove it from
  the logical contents, set \<open>head\<close> to \<open>(head + 1) mod capacity\<close> and decrease \<open>size\<close>
  by one.
\<close>

theorem empty_failure_and_removal:
  "(size_rb s = 0 \<longrightarrow>
      pop mv s = Some (Inl (out_of_range ''Cannot pop from an empty RingBuffer.''), s)
      \<and> front s = Some (Inl (out_of_range ''Cannot get front from an empty RingBuffer.''), s)
      \<and> try_pop mv s out_item = Some (False, s, out_item))
   \<and> (invariant s \<and> size_rb s \<noteq> 0 \<longrightarrow>
        (\<exists>s'. pop mv s = Some (Inr (buffer_m s ! unat (head_m s)), s')
           \<and> try_pop mv s out_item = Some (True, s', buffer_m s ! unat (head_m s))
           \<and> buffer_m s ! unat (head_m s) = hd (contents s)
           \<and> contents s' = tl (contents s)
           \<and> head_m s' = (head_m s + 1) mod capacity_m s
           \<and> unat (head_m s') = (unat (head_m s) + 1) mod unat (capacity_m s)
           \<and> size_rb s' = size_rb s - 1
           \<and> Suc (unat (size_rb s')) = unat (size_rb s)
           \<and> capacity_m s' = capacity_m s \<and> tail_m s' = tail_m s))"
proof (intro conjI impI)
  assume "size_rb s = 0"
  then have e: "size_m s = 0"
    by (simp add: size_rb_def)
  then show "pop mv s = Some (Inl (out_of_range ''Cannot pop from an empty RingBuffer.''), s)"
    by (rule pop_empty)
  from e show "front s = Some (Inl (out_of_range ''Cannot get front from an empty RingBuffer.''), s)"
    by (simp add: front_def empty_rb_def)
  from e show "try_pop mv s out_item = Some (False, s, out_item)"
    by (simp add: try_pop_def empty_rb_def)
next
  assume "invariant s \<and> size_rb s \<noteq> 0"
  then have i: "invariant s" and ne: "size_m s \<noteq> 0"
    by (simp_all add: size_rb_def)
  from pop_correct [OF i ne, of mv]
  obtain s' where s': "pop mv s = Some (Inr (hd (contents s)), s')"
      "capacity_m s' = capacity_m s" "contents s' = tl (contents s)"
      "head_m s' = (head_m s + 1) mod capacity_m s" "size_m s' = size_m s - 1"
      "tail_m s' = tail_m s"
    by blast
  from i have "unat (head_m s) < unat (capacity_m s)"
    by (simp add: invariant_def)
  then have h: "unat (head_m s') = (unat (head_m s) + 1) mod unat (capacity_m s)"
    unfolding s'(4) by (simp add: unat_incr_mod)
  from ne have "0 < unat (size_m s)"
    by (simp add: unat_gt_0)
  then have n: "Suc (unat (size_m s')) = unat (size_m s)"
    unfolding s'(5) using ne by (simp add: unat_minus_one)
  show "\<exists>s'. pop mv s = Some (Inr (buffer_m s ! unat (head_m s)), s')
      \<and> try_pop mv s out_item = Some (True, s', buffer_m s ! unat (head_m s))
      \<and> buffer_m s ! unat (head_m s) = hd (contents s)
      \<and> contents s' = tl (contents s)
      \<and> head_m s' = (head_m s + 1) mod capacity_m s
      \<and> unat (head_m s') = (unat (head_m s) + 1) mod unat (capacity_m s)
      \<and> size_rb s' = size_rb s - 1
      \<and> Suc (unat (size_rb s')) = unat (size_rb s)
      \<and> capacity_m s' = capacity_m s \<and> tail_m s' = tail_m s"
    using s' h n hd_contents [OF i ne]
    by (intro exI [of _ s']) (simp add: try_pop_eq_pop size_rb_def)
qed

theorem empty_failure_and_removal_witness:
  "size_rb \<lparr>buffer_m = [4, 2, 3::nat], capacity_m = 3, head_m = 2, tail_m = 2, size_m = 0\<rparr> = 0
   \<and> pop (\<lambda>x. 0) \<lparr>buffer_m = [4, 2, 3::nat], capacity_m = 3, head_m = 2, tail_m = 2, size_m = 0\<rparr>
       = Some (Inl (out_of_range ''Cannot pop from an empty RingBuffer.''),
               \<lparr>buffer_m = [4, 2, 3], capacity_m = 3, head_m = 2, tail_m = 2, size_m = 0\<rparr>)
   \<and> front \<lparr>buffer_m = [4, 2, 3::nat], capacity_m = 3, head_m = 2, tail_m = 2, size_m = 0\<rparr>
       = Some (Inl (out_of_range ''Cannot get front from an empty RingBuffer.''),
               \<lparr>buffer_m = [4, 2, 3], capacity_m = 3, head_m = 2, tail_m = 2, size_m = 0\<rparr>)
   \<and> try_pop (\<lambda>x. 0) \<lparr>buffer_m = [4, 2, 3::nat], capacity_m = 3, head_m = 2, tail_m = 2, size_m = 0\<rparr> 9
       = Some (False, \<lparr>buffer_m = [4, 2, 3], capacity_m = 3, head_m = 2, tail_m = 2, size_m = 0\<rparr>, 9)
   \<and> invariant \<lparr>buffer_m = [4, 2, 3::nat], capacity_m = 3, head_m = 2, tail_m = 1, size_m = 2\<rparr>
   \<and> size_rb \<lparr>buffer_m = [4, 2, 3::nat], capacity_m = 3, head_m = 2, tail_m = 1, size_m = 2\<rparr> \<noteq> 0
   \<and> (\<exists>s'. pop (\<lambda>x. 0) \<lparr>buffer_m = [4, 2, 3::nat], capacity_m = 3, head_m = 2, tail_m = 1, size_m = 2\<rparr>
            = Some (Inr 3, s')
         \<and> try_pop (\<lambda>x. 0)
              \<lparr>buffer_m = [4, 2, 3::nat], capacity_m = 3, head_m = 2, tail_m = 1, size_m = 2\<rparr> 9
            = Some (True, s', 3)
         \<and> head_m s' = 0 \<and> size_rb s' = 1 \<and> capacity_m s' = 3 \<and> tail_m s' = 1)"
proof -
  let ?e = "\<lparr>buffer_m = [4, 2, 3::nat], capacity_m = 3, head_m = 2, tail_m = 2, size_m = 0\<rparr>"
  let ?n = "\<lparr>buffer_m = [4, 2, 3::nat], capacity_m = 3, head_m = 2, tail_m = 1, size_m = 2\<rparr>"
  have e: "size_rb ?e = 0"
    by (simp add: size_rb_def)
  have i: "invariant ?n"
    by (simp add: invariant_def)
  have n: "size_rb ?n \<noteq> 0"
    by (simp add: size_rb_def)
  from empty_failure_and_removal [of ?e "\<lambda>x. 0" 9] e
  have 1: "pop (\<lambda>x. 0) ?e = Some (Inl (out_of_range ''Cannot pop from an empty RingBuffer.''), ?e)
      \<and> front ?e = Some (Inl (out_of_range ''Cannot get front from an empty RingBuffer.''), ?e)
      \<and> try_pop (\<lambda>x. 0) ?e 9 = Some (False, ?e, 9)"
    by blast
  from empty_failure_and_removal [of ?n "\<lambda>x. 0" 9] i n
  obtain s' where "pop (\<lambda>x. 0) ?n = Some (Inr (buffer_m ?n ! unat (head_m ?n)), s')"
      "try_pop (\<lambda>x. 0) ?n 9 = Some (True, s', buffer_m ?n ! unat (head_m ?n))"
      "head_m s' = (head_m ?n + 1) mod capacity_m ?n" "size_rb s' = size_rb ?n - 1"
      "capacity_m s' = capacity_m ?n" "tail_m s' = tail_m ?n"
    by blast
  then have 2: "\<exists>s'. pop (\<lambda>x. 0) ?n = Some (Inr 3, s') \<and> try_pop (\<lambda>x. 0) ?n 9 = Some (True, s', 3)
      \<and> head_m s' = 0 \<and> size_rb s' = 1 \<and> capacity_m s' = 3 \<and> tail_m s' = 1"
    by (intro exI [of _ s']) (simp add: size_rb_def)
  from 1 2 e i n show ?thesis
    by blast
qed

text \<open>
  Claim C6. \<^verbatim>\<open>at(i)\<close>, in both overloads, succeeds exactly when \<open>i < size()\<close>: it then
  returns the element in slot \<open>(head + i) mod capacity\<close> (the sum taken in the natural
  numbers), which is the \<open>i\<close>-th of the logical contents; for \<open>i \<ge> size()\<close> it throws
  \<^verbatim>\<open>std::out_of_range\<close> (the index error). In no case does it change the object.
  The buffer is any object with the class invariant whose storage, being a vector,
  has at most \<open>vector_max_size\<close> slots; \<open>constructed_buffer_well_formed\<close> shows that
  these are the states a buffer can be in, whatever its slots hold.
\<close>

theorem at_index_bounds:
  assumes "invariant s" and "length (buffer_m s) \<le> vector_max_size"
  shows "(i < size_rb s \<longrightarrow>
            at s i = Some (Inr (buffer_m s ! ((unat (head_m s) + unat i) mod unat (capacity_m s))), s)
          \<and> at_const s i
              = Some (Inr (buffer_m s ! ((unat (head_m s) + unat i) mod unat (capacity_m s))), s)
          \<and> (unat (head_m s) + unat i) mod unat (capacity_m s) < length (buffer_m s)
          \<and> buffer_m s ! ((unat (head_m s) + unat i) mod unat (capacity_m s)) = contents s ! unat i)
    \<and> (size_rb s \<le> i \<longrightarrow>
          at s i = Some (Inl (out_of_range ''Index out of bounds for RingBuffer::at()''), s)
        \<and> at_const s i
            = Some (Inl (out_of_range ''Index out of bounds for RingBuffer::at() const''), s))"
proof (intro conjI impI)
  assume "i < size_rb s"
  then have lt: "i < size_m s"
    by (simp add: size_rb_def)
  from at_in_range [OF assms lt] slot_in_range [OF assms(1), of "unat i"]
  show "at s i = Some (Inr (buffer_m s ! ((unat (head_m s) + unat i) mod unat (capacity_m s))), s)"
    and "at_const s i
      = Some (Inr (buffer_m s ! ((unat (head_m s) + unat i) mod unat (capacity_m s))), s)"
    and "(unat (head_m s) + unat i) mod unat (capacity_m s) < length (buffer_m s)"
    and "buffer_m s ! ((unat (head_m s) + unat i) mod unat (capacity_m s)) = contents s ! unat i"
    by (simp_all add: slot_def)
next
  assume "size_rb s \<le> i"
  then show "at s i = Some (Inl (out_of_range ''Index out of bounds for RingBuffer::at()''), s)"
    and "at_const s i
      = Some (Inl (out_of_range ''Index out of bounds for RingBuffer::at() const''), s)"
    by (simp_all add: at_def at_const_def size_rb_def)
qed

theorem at_index_bounds_witness:
  "invariant \<lparr>buffer_m = [4, 2, 3::nat], capacity_m = 3, head_m = 2, tail_m = 1, size_m = 2\<rparr>
   \<and> length (buffer_m \<lparr>buffer_m = [4, 2, 3::nat], capacity_m = 3, head_m = 2, tail_m = 1, size_m = 2\<rparr>)
       \<le> vector_max_size
   \<and> (1::size_t) < size_rb \<lparr>buffer_m = [4, 2, 3::nat], capacity_m = 3, head_m = 2, tail_m = 1, size_m = 2\<rparr>
   \<and> at \<lparr>buffer_m = [4, 2, 3::nat], capacity_m = 3, head_m = 2, tail_m = 1, size_m = 2\<rparr> 1
       = Some (Inr 4, \<lparr>buffer_m = [4, 2, 3], capacity_m = 3, head_m = 2, tail_m = 1, size_m = 2\<rparr>)
   \<and> size_rb \<lparr>buffer_m = [4, 2, 3::nat], capacity_m = 3, head_m = 2, tail_m = 1, size_m = 2\<rparr> \<le> 2
   \<and> at \<lparr>buffer_m = [4, 2, 3::nat], capacity_m = 3, head_m = 2, tail_m = 1, size_m = 2\<rparr> 2
       = Some (Inl (out_of_range ''Index out of bounds for RingBuffer::at()''),
               \<lparr>buffer_m = [4, 2, 3], capacity_m = 3, head_m = 2, tail_m = 1, size_m = 2\<rparr>)"
proof -
  let ?n = "\<lparr>buffer_m = [4, 2, 3::nat], capacity_m = 3, head_m = 2, tail_m = 1, size_m = 2\<rparr>"
  have i: "invariant ?n"
    by (simp add: invariant_def)
  have m: "length (buffer_m ?n) \<le> vector_max_size"
    by (simp add: vector_max_size_def)
  have a: "(1::size_t) < size_rb ?n"
    by (simp add: size_rb_def)
  have b: "size_rb ?n \<le> 2"
    by (simp add: size_rb_def)
  from at_index_bounds [OF i m, of 1] a
  have "at ?n 1 = Some (Inr (buffer_m ?n ! ((unat (head_m ?n) + unat (1::size_t)) mod unat (capacity_m ?n))), ?n)"
    by blast
  then have 1: "at ?n 1 = Some (Inr 4, ?n)"
    by simp
  from at_index_bounds [OF i m, of 2] b
  have 2: "at ?n 2 = Some (Inl (out_of_range ''Index out of bounds for RingBuffer::at()''), ?n)"
    by blast
  from 1 2 i m a b show ?thesis
    by blast
qed

text \<open>
  Claim C7, amended. Construction with capacity 0 throws \<^verbatim>\<open>std::invalid_argument\<close> and
  gives no object, whatever the vector's limit and the state of the allocator. For a
  capacity \<open>c \<ge> 1\<close> construction succeeds exactly when the storage can be built, that
  is when \<open>c\<close> does not exceed the vector's \<^verbatim>\<open>max_size()\<close> and the allocator supplies \<open>c\<close>
  slots; the object then has \<open>size = 0\<close>, \<open>head = tail = 0\<close>, capacity \<open>c\<close> and a storage
  of exactly \<open>c\<close> slots. Otherwise the member initialiser throws, \<^verbatim>\<open>std::length_error\<close>
  above \<^verbatim>\<open>max_size()\<close> and \<^verbatim>\<open>std::bad_alloc\<close> when the allocation fails, and there is
  no object.
\<close>

theorem construction_outcomes:
  "new mx al dflt 0 = Inl (invalid_argument ''RingBuffer capacity must be greater than 0.'')
   \<and> (1 \<le> unat c \<and> unat c \<le> mx \<and> al (unat c) \<longrightarrow>
        (\<exists>s. new mx al dflt c = Inr s \<and> size_rb s = 0 \<and> head_m s = 0 \<and> tail_m s = 0
           \<and> capacity s = c \<and> length (buffer_m s) = unat c
           \<and> buffer_m s = replicate (unat c) dflt))
   \<and> (mx < unat c \<longrightarrow> new mx al dflt c = Inl length_error)
   \<and> (1 \<le> unat c \<and> unat c \<le> mx \<and> \<not> al (unat c) \<longrightarrow> new mx al dflt c = Inl bad_alloc)
   \<and> (\<forall>s. new mx al dflt c = Inr s \<longrightarrow>
         1 \<le> unat c \<and> unat c \<le> mx \<and> al (unat c) \<and> size_rb s = 0 \<and> head_m s = 0
         \<and> tail_m s = 0 \<and> capacity s = c \<and> length (buffer_m s) = unat c)"
proof (intro conjI impI allI)
  show "new mx al dflt 0 = Inl (invalid_argument ''RingBuffer capacity must be greater than 0.'')"
    by (simp add: new_def vector_n_def)
next
  assume a: "1 \<le> unat c \<and> unat c \<le> mx \<and> al (unat c)"
  then have "c \<noteq> 0"
    by auto
  with a show "\<exists>s. new mx al dflt c = Inr s \<and> size_rb s = 0 \<and> head_m s = 0 \<and> tail_m s = 0
      \<and> capacity s = c \<and> length (buffer_m s) = unat c \<and> buffer_m s = replicate (unat c) dflt"
    by (simp add: new_def vector_n_def size_rb_def capacity_def)
next
  assume "mx < unat c"
  then show "new mx al dflt c = Inl length_error"
    by (simp add: new_def vector_n_def)
next
  assume a: "1 \<le> unat c \<and> unat c \<le> mx \<and> \<not> al (unat c)"
  then have "c \<noteq> 0"
    by auto
  with a show "new mx al dflt c = Inl bad_alloc"
    by (simp add: new_def vector_n_def)
next
  fix s
  assume n: "new mx al dflt c = Inr s"
  from new_Inr [OF n] have "0 < unat c"
    by (simp add: unat_gt_0)
  with new_Inr [OF n]
  show "1 \<le> unat c" and "unat c \<le> mx" and "al (unat c)" and "size_rb s = 0" and "head_m s = 0"
    and "tail_m s = 0" and "capacity s = c" and "length (buffer_m s) = unat c"
    by (simp_all add: size_rb_def capacity_def)
qed

theorem construction_outcomes_witness:
  "new (2 ^ 61 - 1) (\<lambda>n. n \<le> 1000) (0::nat) 0
     = Inl (invalid_argument ''RingBuffer capacity must be greater than 0.'')
   \<and> 1 \<le> unat (3::size_t) \<and> unat (3::size_t) \<le> 2 ^ 61 - 1 \<and> unat (3::size_t) \<le> 1000
   \<and> new (2 ^ 61 - 1) (\<lambda>n. n \<le> 1000) (0::nat) 3
       = Inr \<lparr>buffer_m = [0, 0, 0], capacity_m = 3, head_m = 0, tail_m = 0, size_m = 0\<rparr>
   \<and> 2 ^ 61 - 1 < unat (2 ^ 61 :: size_t)
   \<and> new (2 ^ 61 - 1) (\<lambda>n. n \<le> 1000) (0::nat) (2 ^ 61) = Inl length_error
   \<and> 1 \<le> unat (1001::size_t) \<and> unat (1001::size_t) \<le> 2 ^ 61 - 1 \<and> \<not> unat (1001::size_t) \<le> 1000
   \<and> new (2 ^ 61 - 1) (\<lambda>n. n \<le> 1000) (0::nat) 1001 = Inl bad_alloc"
proof -
  let ?new = "new (2 ^ 61 - 1) (\<lambda>n. n \<le> 1000) (0::nat)"
  have a: "1 \<le> unat (3::size_t) \<and> unat (3::size_t) \<le> 2 ^ 61 - 1 \<and> unat (3::size_t) \<le> 1000"
    by simp
  have b: "(2 ^ 61 - 1 :: nat) < unat (2 ^ 61 :: size_t)"
    by simp
  have d: "1 \<le> unat (1001::size_t) \<and> unat (1001::size_t) \<le> 2 ^ 61 - 1
      \<and> \<not> unat (1001::size_t) \<le> 1000"
    by simp
  have "replicate 3 (0::nat) = [0, 0, 0]"
    by (simp add: numeral_3_eq_3)
  then have r: "replicate (unat (3::size_t)) (0::nat) = [0, 0, 0]"
    by simp
  from construction_outcomes
      [where mx = "2 ^ 61 - 1" and al = "\<lambda>n. n \<le> 1000" and dflt = "0::nat" and c = 3] a
  obtain s where s: "?new 3 = Inr s" "size_rb s = 0" "head_m s = 0" "tail_m s = 0"
      "capacity s = 3" "buffer_m s = replicate (unat (3::size_t)) 0"
    by blast
  then have "s = \<lparr>buffer_m = [0, 0, 0], capacity_m = 3, head_m = 0, tail_m = 0, size_m = 0\<rparr>"
    unfolding r by (cases s) (simp add: size_rb_def capacity_def)
  with s(1) have 1: "?new 3
      = Inr \<lparr>buffer_m = [0, 0, 0], capacity_m = 3, head_m = 0, tail_m = 0, size_m = 0\<rparr>"
    by simp
  from construction_outcomes
      [where mx = "2 ^ 61 - 1" and al = "\<lambda>n. n \<le> 1000" and dflt = "0::nat" and c = "2 ^ 61"] b
  have 2: "?new (2 ^ 61) = Inl length_error"
    by blast
  from construction_outcomes
      [where mx = "2 ^ 61 - 1" and al = "\<lambda>n. n \<le> 1000" and dflt = "0::nat" and c = 1001] d
  have 3: "?new 1001 = Inl bad_alloc"
    by blast
  from construction_outcomes
      [where mx = "2 ^ 61 - 1" and al = "\<lambda>n. n \<le> 1000" and dflt = "0::nat" and c = 3]
  have 4: "?new 0 = Inl (invalid_argument ''RingBuffer capacity must be greater than 0.'')"
    by blast
  from 1 2 3 4 a b d show ?thesis
    by blast
qed

text \<open>
  Claim C7 as the specification has it, success for every capacity \<open>c \<ge> 1\<close>, fails
  at \<open>c = 2 ^ 63\<close> even where the vector's limit is the largest there is and the
  allocator never refuses: the vector cannot have that many elements.
\<close>

theorem construction_fails_beyond_max_size:
  "1 \<le> unat (2 ^ 63 :: size_t)
   \<and> new vector_max_size (\<lambda>n. True) (0::nat) (2 ^ 63) = Inl length_error"
  by (simp add: new_def vector_n_def vector_max_size_def)

text \<open>
  Claim C8. The loop from \<^verbatim>\<open>begin()\<close> to \<^verbatim>\<open>end()\<close> terminates and yields exactly \<open>size\<close>
  elements, as many as the index the end iterator was created with; the element at
  logical position \<open>j\<close> is the one in slot \<open>(head + j) mod capacity\<close>, which is what
  \<^verbatim>\<open>at(j)\<close> returns. \<^verbatim>\<open>cbegin()\<close> and \<^verbatim>\<open>cend()\<close> build the same iterators. The
  buffer is any object with the class invariant and a storage of at most
  \<open>vector_max_size\<close> slots, and it is not modified during the traversal.
\<close>

theorem traversal_yields_logical_contents:
  assumes "invariant s" and "length (buffer_m s) \<le> vector_max_size"
  shows "\<exists>xs. traverse (begin_rb s) (end_rb s) = Some xs
    \<and> length xs = unat (size_rb s)
    \<and> length xs = unat (current_logical_index_m (end_rb s))
    \<and> (\<forall>i. i < size_rb s \<longrightarrow>
          xs ! unat i = buffer_m s ! ((unat (head_m s) + unat i) mod unat (capacity_m s))
          \<and> at s i = Some (Inr (xs ! unat i), s))
    \<and> (\<forall>j. j < unat (size_rb s) \<longrightarrow>
          xs ! j = buffer_m s ! ((unat (head_m s) + j) mod unat (capacity_m s)))"
proof (intro exI [of _ "contents s"] conjI allI impI)
  show "traverse (begin_rb s) (end_rb s) = Some (contents s)"
    using assms by (rule traverse_contents)
  show "length (contents s) = unat (size_rb s)"
    by (simp add: length_contents size_rb_def)
  show "length (contents s) = unat (current_logical_index_m (end_rb s))"
    by (simp add: length_contents end_rb_def)
next
  fix i
  assume "i < size_rb s"
  then have lt: "i < size_m s"
    by (simp add: size_rb_def)
  from at_in_range [OF assms lt]
  show "contents s ! unat i = buffer_m s ! ((unat (head_m s) + unat i) mod unat (capacity_m s))"
    and "at s i = Some (Inr (contents s ! unat i), s)"
    by (simp_all add: slot_def)
next
  fix j
  assume "j < unat (size_rb s)"
  then show "contents s ! j = buffer_m s ! ((unat (head_m s) + j) mod unat (capacity_m s))"
    by (simp add: contents_def slot_def size_rb_def)
qed

theorem traversal_yields_logical_contents_witness:
  "invariant \<lparr>buffer_m = [4, 5, 3::nat], capacity_m = 3, head_m = 2, tail_m = 2, size_m = 3\<rparr>
   \<and> length (buffer_m \<lparr>buffer_m = [4, 5, 3::nat], capacity_m = 3, head_m = 2, tail_m = 2, size_m = 3\<rparr>)
       \<le> vector_max_size
   \<and> traverse
        (begin_rb \<lparr>buffer_m = [4, 5, 3::nat], capacity_m = 3, head_m = 2, tail_m = 2, size_m = 3\<rparr>)
        (end_rb \<lparr>buffer_m = [4, 5, 3::nat], capacity_m = 3, head_m = 2, tail_m = 2, size_m = 3\<rparr>)
       = Some [3, 4, 5]"
proof -
  let ?s = "\<lparr>buffer_m = [4, 5, 3::nat], capacity_m = 3, head_m = 2, tail_m = 2, size_m = 3\<rparr>"
  have i: "invariant ?s"
    by (simp add: invariant_def)
  have m: "length (buffer_m ?s) \<le> vector_max_size"
    by (simp add: vector_max_size_def)
  from traversal_yields_logical_contents [OF i m]
  obtain xs where xs: "traverse (begin_rb ?s) (end_rb ?s) = Some xs" "length xs = unat (size_rb ?s)"
      "\<forall>j. j < unat (size_rb ?s) \<longrightarrow>
          xs ! j = buffer_m ?s ! ((unat (head_m ?s) + j) mod unat (capacity_m ?s))"
    by blast
  have "xs = [3, 4, 5]"
  proof (rule nth_equalityI)
    show "length xs = length [3, 4, 5::nat]"
      using xs(2) by (simp add: size_rb_def)
  next
    fix j
    assume "j < length xs"
    then have j: "j < 3"
      using xs(2) by (simp add: size_rb_def)
    then have "xs ! j = buffer_m ?s ! ((unat (head_m ?s) + j) mod unat (capacity_m ?s))"
      using xs(3) by (simp add: size_rb_def)
    moreover from j have "j = 0 \<or> j = 1 \<or> j = 2"
      by auto
    ultimately show "xs ! j = [3, 4, 5] ! j"
      by auto
  qed
  with xs(1) i m show ?thesis
    by simp
qed

text \<open>
  Claim C9. In every state a constructed buffer reaches, the capacity is at least 1
  and equals the length of the storage; \<open>tail\<close>, \<open>head\<close> and \<open>(head + i) % capacity\<close>
  for any \<open>i\<close>, the indices with which the member functions and the iterator access
  the storage, are below it. Hence no call of \<^verbatim>\<open>push\<close>, \<^verbatim>\<open>emplace\<close>, \<^verbatim>\<open>try_push\<close>,
  \<^verbatim>\<open>pop\<close>, \<^verbatim>\<open>try_pop\<close>, \<^verbatim>\<open>front\<close> or \<^verbatim>\<open>at\<close>, no dereference of an iterator and no
  traversal divides by zero or accesses the storage out of range.
\<close>

theorem no_division_by_zero_no_access_out_of_bounds:
  assumes "new mx al dflt c = Inr s0"
  shows "\<exists>s. run mv ctor xs s0 = Some s
    \<and> 1 \<le> unat (capacity s)
    \<and> length (buffer_m s) = unat (capacity s)
    \<and> unat (tail_m s) < unat (capacity s)
    \<and> unat (head_m s) < unat (capacity s)
    \<and> unat ((head_m s + i) mod capacity_m s) < unat (capacity s)
    \<and> push x s \<noteq> None \<and> emplace ctor a s \<noteq> None \<and> try_push x s \<noteq> None
    \<and> pop mv s \<noteq> None \<and> try_pop mv s out_item \<noteq> None \<and> front s \<noteq> None
    \<and> at s i \<noteq> None \<and> at_const s i \<noteq> None
    \<and> deref ((begin_rb s)\<lparr>current_logical_index_m := i\<rparr>) \<noteq> None
    \<and> traverse (begin_rb s) (end_rb s) \<noteq> None"
proof -
  from new_invariant [OF assms] have "invariant s0"
    by simp
  with run_invariant [of s0 mv ctor xs]
  obtain s where r: "run mv ctor xs s0 = Some s" and i: "invariant s"
    by auto
  from i have c: "1 \<le> unat (capacity_m s)" and len: "length (buffer_m s) = unat (capacity_m s)"
    and h: "unat (head_m s) < unat (capacity_m s)" and t: "unat (tail_m s) < unat (capacity_m s)"
    by (simp_all add: invariant_def)
  from c have c0: "capacity_m s \<noteq> 0"
    by auto
  have k: "unat ((head_m s + i) mod capacity_m s) < unat (capacity_m s)"
    using c by (simp add: unat_mod)
  have 1: "push x s \<noteq> None" "emplace ctor a s \<noteq> None" "try_push x s \<noteq> None"
    using push_correct [OF i, of x] push_correct [OF i, of "ctor a"]
    by (auto simp: emplace_eq_push try_push_def)
  have 2: "pop mv s \<noteq> None" "try_pop mv s out_item \<noteq> None"
    using pop_correct [OF i, of mv] pop_empty [of s mv]
    by (cases "size_m s = 0"; auto simp: try_pop_eq_pop)+
  have 3: "front s \<noteq> None"
    using h len by (simp add: front_def subscript_def)
  have 4: "at s i \<noteq> None" "at_const s i \<noteq> None"
    using c0 k len by (simp_all add: at_def at_const_def rem_op_def subscript_def)
  have 5: "deref ((begin_rb s)\<lparr>current_logical_index_m := i\<rparr>) \<noteq> None"
    using c0 k len by (simp add: deref_def begin_rb_def rem_op_def subscript_def)
  have 6: "traverse (begin_rb s) (end_rb s) \<noteq> None"
    using c0 len by (intro traverse_defined) (simp_all add: begin_rb_def)
  from r c len h t k 1 2 3 4 5 6 show ?thesis
    by (auto simp: capacity_def)
qed

theorem no_division_by_zero_no_access_out_of_bounds_witness:
  "new (2 ^ 61 - 1) (\<lambda>n. n \<le> 1000) (0::nat) 3
     = Inr \<lparr>buffer_m = [0, 0, 0], capacity_m = 3, head_m = 0, tail_m = 0, size_m = 0\<rparr>
   \<and> (\<exists>s. run (\<lambda>x. 0) Suc [Push 1, Push 2, Push 3, Push 4, Pop, TryPush 5]
             \<lparr>buffer_m = [0, 0, 0], capacity_m = 3, head_m = 0, tail_m = 0, size_m = 0\<rparr> = Some s
        \<and> 1 \<le> unat (capacity s)
        \<and> length (buffer_m s) = unat (capacity s)
        \<and> unat (tail_m s) < unat (capacity s)
        \<and> unat (head_m s) < unat (capacity s)
        \<and> unat ((head_m s + 7) mod capacity_m s) < unat (capacity s)
        \<and> push 6 s \<noteq> None \<and> emplace Suc 6 s \<noteq> None \<and> try_push 6 s \<noteq> None
        \<and> pop (\<lambda>x. 0) s \<noteq> None \<and> try_pop (\<lambda>x. 0) s 9 \<noteq> None \<and> front s \<noteq> None
        \<and> at s 7 \<noteq> None \<and> at_const s 7 \<noteq> None
        \<and> deref ((begin_rb s)\<lparr>current_logical_index_m := 7\<rparr>) \<noteq> None
        \<and> traverse (begin_rb s) (end_rb s) \<noteq> None)"
proof -
  have h: "new (2 ^ 61 - 1) (\<lambda>n. n \<le> 1000) (0::nat) 3
     = Inr \<lparr>buffer_m = [0, 0, 0], capacity_m = 3, head_m = 0, tail_m = 0, size_m = 0\<rparr>"
  proof -
    have "replicate 3 (0::nat) = [0, 0, 0]"
      by (simp add: numeral_3_eq_3)
    then show ?thesis
      by (simp add: new_def vector_n_def)
  qed
  from no_division_by_zero_no_access_out_of_bounds
      [OF h, where mv = "\<lambda>x. 0" and ctor = Suc and i = 7 and x = 6 and a = 6 and out_item = 9
         and xs = "[Push 1, Push 2, Push 3, Push 4, Pop, TryPush 5]"]
    h
  show ?thesis
    by (rule conjI [rotated])
qed

text \<open>
  Claim C10. On an empty buffer \<^verbatim>\<open>try_pop\<close> returns false and the caller's variable
  keeps its value. Whenever \<^verbatim>\<open>try_pop\<close> returns false the variable is untouched, and
  whenever it returns true the variable holds the element that was in slot \<open>head\<close>;
  on a buffer that is not empty it does return true.
\<close>

theorem try_pop_output_parameter:
  "(empty_rb s \<longrightarrow> try_pop mv s out_item = Some (False, s, out_item))
   \<and> (\<forall>b s' out'. try_pop mv s out_item = Some (b, s', out') \<longrightarrow>
         (b \<longrightarrow> \<not> empty_rb s \<and> out' = buffer_m s ! unat (head_m s))
         \<and> (\<not> b \<longrightarrow> empty_rb s \<and> out' = out_item \<and> s' = s))
   \<and> (invariant s \<and> \<not> empty_rb s \<longrightarrow>
         (\<exists>s'. try_pop mv s out_item = Some (True, s', buffer_m s ! unat (head_m s))))"
proof (intro conjI impI allI)
  assume "empty_rb s"
  then show "try_pop mv s out_item = Some (False, s, out_item)"
    by (simp add: try_pop_def)
next
  fix b s' out'
  assume "try_pop mv s out_item = Some (b, s', out')" and b
  then show "\<not> empty_rb s" and "out' = buffer_m s ! unat (head_m s)"
    by (auto simp: try_pop_def subscript_def split: if_splits option.splits)
next
  fix b s' out'
  assume "try_pop mv s out_item = Some (b, s', out')" and "\<not> b"
  then show "empty_rb s" and "out' = out_item" and "s' = s"
    by (auto simp: try_pop_def subscript_def split: if_splits option.splits)
next
  assume "invariant s \<and> \<not> empty_rb s"
  then have i: "invariant s" and ne: "size_m s \<noteq> 0"
    by (simp_all add: empty_rb_def)
  from pop_correct [OF i ne, of mv] hd_contents [OF i ne]
  show "\<exists>s'. try_pop mv s out_item = Some (True, s', buffer_m s ! unat (head_m s))"
    by (auto simp: try_pop_eq_pop)
qed

theorem try_pop_output_parameter_witness:
  "empty_rb \<lparr>buffer_m = [4, 2, 3::nat], capacity_m = 3, head_m = 2, tail_m = 2, size_m = 0\<rparr>
   \<and> try_pop (\<lambda>x. 0) \<lparr>buffer_m = [4, 2, 3::nat], capacity_m = 3, head_m = 2, tail_m = 2, size_m = 0\<rparr> 9
       = Some (False, \<lparr>buffer_m = [4, 2, 3], capacity_m = 3, head_m = 2, tail_m = 2, size_m = 0\<rparr>, 9)
   \<and> invariant \<lparr>buffer_m = [4, 2, 3::nat], capacity_m = 3, head_m = 2, tail_m = 1, size_m = 2\<rparr>
   \<and> \<not> empty_rb \<lparr>buffer_m = [4, 2, 3::nat], capacity_m = 3, head_m = 2, tail_m = 1, size_m = 2\<rparr>
   \<and> try_pop (\<lambda>x. 0) \<lparr>buffer_m = [4, 2, 3::nat], capacity_m = 3, head_m = 2, tail_m = 1, size_m = 2\<rparr> 9
       = Some (True, \<lparr>buffer_m = [4, 2, 0], capacity_m = 3, head_m = 0, tail_m = 1, size_m = 1\<rparr>, 3)"
proof -
  let ?e = "\<lparr>buffer_m = [4, 2, 3::nat], capacity_m = 3, head_m = 2, tail_m = 2, size_m = 0\<rparr>"
  let ?n = "\<lparr>buffer_m = [4, 2, 3::nat], capacity_m = 3, head_m = 2, tail_m = 1, size_m = 2\<rparr>"
  let ?r = "\<lparr>buffer_m = [4, 2, 0::nat], capacity_m = 3, head_m = 0, tail_m = 1, size_m = 1\<rparr>"
  have e: "empty_rb ?e"
    by (simp add: empty_rb_def)
  have i: "invariant ?n"
    by (simp add: invariant_def)
  have n: "\<not> empty_rb ?n"
    by (simp add: empty_rb_def)
  have t: "try_pop (\<lambda>x. 0) ?n 9 = Some (True, ?r, 3)"
    by (simp add: try_pop_def empty_rb_def subscript_def rem_op_def)
  from try_pop_output_parameter [of ?e "\<lambda>x. 0" 9] e
  have 1: "try_pop (\<lambda>x. 0) ?e 9 = Some (False, ?e, 9)"
    by blast
  from try_pop_output_parameter [of ?n "\<lambda>x. 0" 9] t
  have "\<not> empty_rb ?n \<and> (3::nat) = buffer_m ?n ! unat (head_m ?n)"
    by blast
  with 1 t e i show ?thesis
    by blast
qed

end
